theory Spec2Isabelle
  imports Main
begin

section \<open>Python values and errors\<close>

text \<open>
  The two scripts work on Python's unbounded integers (modelled as \<open>int\<close>), on lists of
  booleans and integers, and on floats. The only exceptions the modelled functions can
  raise are an out-of-range list assignment and a division by zero.
\<close>

datatype error = IndexError | ZeroDivisionError

text \<open>\<open>xs[i] = v\<close> for a non-negative index: Python raises IndexError out of range.\<close>

definition list_assign :: "'a list \<Rightarrow> nat \<Rightarrow> 'a \<Rightarrow> error + 'a list" where
  "list_assign xs i v = (if i < length xs then Inr (xs[i := v]) else Inl IndexError)"

text \<open>
  \<open>range(a, b, s)\<close> for non-negative \<open>a\<close>, \<open>b\<close> and a positive step: the values
  \<open>a, a + s, a + 2 s, ...\<close> below \<open>b\<close>.
\<close>

definition py_range3 :: "nat \<Rightarrow> nat \<Rightarrow> nat \<Rightarrow> nat list" where
  "py_range3 a b s = map (\<lambda>k. a + k * s) [0..<(b - a + s - 1) div s]"

text \<open>
  \<open>int(n ** 0.5)\<close>: the script takes the square root in double precision and truncates.
  For every \<open>n\<close> below \<open>2 ^ 52\<close> (far beyond any list the sieve can allocate) this is
  the integer square root, which is what the model computes.
\<close>

fun isqrt :: "nat \<Rightarrow> nat" where
  "isqrt 0 = 0"
| "isqrt (Suc n) = (let r = isqrt n in if (r + 1) * (r + 1) \<le> Suc n then r + 1 else r)"

text \<open>Three-argument \<open>pow(n, e, m)\<close> on integers with a positive modulus.\<close>

definition py_pow :: "int \<Rightarrow> nat \<Rightarrow> int \<Rightarrow> int" where
  "py_pow n e m = n ^ e mod m"

section \<open>The sieve (both scripts carry the same copy)\<close>

text \<open>The inner loop \<open>for j in range(i * i, n + 1, i): is_prime[j] = False\<close>.\<close>

definition strike_multiples :: "nat \<Rightarrow> nat \<Rightarrow> bool list \<Rightarrow> bool list" where
  "strike_multiples i n a = fold (\<lambda>j a. a[j := False]) (py_range3 (i * i) (n + 1) i) a"

text \<open>The outer loop \<open>for i in range(2, int(n ** 0.5) + 1): if is_prime[i]: ...\<close>.\<close>

definition sieve_loop :: "nat \<Rightarrow> bool list \<Rightarrow> bool list" where
  "sieve_loop n a = fold (\<lambda>i a. if a ! i then strike_multiples i n a else a) [2..<isqrt n + 1] a"

text \<open>
  \<open>sieve_primes(n)\<close>. The list has \<open>n + 1\<close> entries (none when \<open>n + 1 \<le> 0\<close>); the chained
  assignment \<open>is_prime[0] = is_prime[1] = False\<close> stores at index 0 and then at index 1.
  Every index used afterwards is at most \<open>n\<close>.
\<close>

definition sieve_primes :: "int \<Rightarrow> error + int list" where
  "sieve_primes n =
     (let is_prime = replicate (nat (n + 1)) True in
      case list_assign is_prime 0 False of
        Inl e \<Rightarrow> Inl e
      | Inr a0 \<Rightarrow>
         (case list_assign a0 1 False of
            Inl e \<Rightarrow> Inl e
          | Inr a1 \<Rightarrow>
             (let a2 = sieve_loop (nat n) a1
              in Inr (map int (filter (\<lambda>i. a2 ! i) [2..<nat n + 1])))))"

section \<open>The classifiers\<close>

text \<open>\<open>omega_Q\<close> of compute_bateman_horn.py.\<close>

definition omega_Q :: "int \<Rightarrow> int" where
  "omega_Q p = (if p = 47 then 0 else if (p - 1) mod 47 = 0 then 46 else 0)"

text \<open>\<open>omega_theory\<close> of verify_local_obstruction.py.\<close>

definition omega_theory :: "int \<Rightarrow> int" where
  "omega_theory p = (if p = 47 then 0 else if (p - 1) mod 47 = 0 then 46 else 0)"

text \<open>The residue \<open>(pow(n, 47, p) - pow((n - 1) % p, 47, p)) % p\<close> that three checks compute.\<close>

definition q_residue :: "int \<Rightarrow> int \<Rightarrow> int" where
  "q_residue n p = (py_pow n 47 p - py_pow ((n - 1) mod p) 47 p) mod p"

text \<open>\<open>omega_brute_force\<close>: the counting loop over \<open>range(p)\<close>.\<close>

definition omega_brute_force :: "int \<Rightarrow> int" where
  "omega_brute_force p =
     foldl (\<lambda>count n. let q = q_residue n p in if q = 0 then count + 1 else count) 0 [0..p - 1]"

section \<open>The verification checks\<close>

text \<open>\<open>verify_omega\<close>: the flag \<open>all_ok\<close> is cleared at every mismatch; printing is left out.\<close>

definition verify_omega :: "int \<Rightarrow> error + bool" where
  "verify_omega p_max =
     (case sieve_primes p_max of
        Inl e \<Rightarrow> Inl e
      | Inr primes \<Rightarrow>
          Inr (foldl (\<lambda>all_ok p.
                 let brute = omega_brute_force p; theory = omega_theory p
                 in if brute \<noteq> theory then False else all_ok) True primes))"

text \<open>\<open>verify_mod47\<close>: the loop returns False at the first \<open>n\<close> whose residue is not 1.\<close>

fun verify_mod47_loop :: "int list \<Rightarrow> bool" where
  "verify_mod47_loop [] = True"
| "verify_mod47_loop (n # ns) =
     (let q_mod = q_residue n 47 in if q_mod \<noteq> 1 then False else verify_mod47_loop ns)"

definition verify_mod47 :: "int \<Rightarrow> bool" where
  "verify_mod47 n_max = verify_mod47_loop [0..n_max]"

text \<open>
  \<open>verify_no_small_divisors\<close>: two nested loops, leaving with False at the first pair
  \<open>(n, p)\<close> whose residue is 0.
\<close>

fun no_divisor_among :: "int \<Rightarrow> int list \<Rightarrow> bool" where
  "no_divisor_among n [] = True"
| "no_divisor_among n (p # ps) =
     (let q_mod = q_residue n p in if q_mod = 0 then False else no_divisor_among n ps)"

fun no_small_divisors_loop :: "int list \<Rightarrow> int list \<Rightarrow> bool" where
  "no_small_divisors_loop [] small_primes = True"
| "no_small_divisors_loop (n # ns) small_primes =
     (if no_divisor_among n small_primes then no_small_divisors_loop ns small_primes else False)"

definition verify_no_small_divisors :: "int \<Rightarrow> error + bool" where
  "verify_no_small_divisors n_max =
     (case sieve_primes 282 of
        Inl e \<Rightarrow> Inl e
      | Inr small_primes \<Rightarrow> Inr (no_small_divisors_loop [2..n_max] small_primes))"

text \<open>\<open>verify_smallest_bad_prime\<close>: the answer is decided at the first prime with \<open>(p - 1) % 47 == 0\<close>.\<close>

fun first_bad_prime_is_283 :: "int list \<Rightarrow> bool" where
  "first_bad_prime_is_283 [] = False"
| "first_bad_prime_is_283 (p # ps) =
     (if (p - 1) mod 47 = 0 then (if p = 283 then True else False)
      else first_bad_prime_is_283 ps)"

definition verify_smallest_bad_prime :: "error + bool" where
  "verify_smallest_bad_prime =
     (case sieve_primes 300 of
        Inl e \<Rightarrow> Inl e
      | Inr primes \<Rightarrow> Inr (first_bad_prime_is_283 primes))"

section \<open>The Euler product of compute_bateman_horn.py\<close>

text \<open>
  A Python float is kept as the expression that computes it. Each constructor is one
  operation of the script on doubles: the literal \<open>1.0\<close>, the true division \<open>a / b\<close> of two
  integers, \<open>k - x\<close> with an integer \<open>k\<close> on the left, \<open>x / y\<close> and \<open>x * y\<close>. Two runs
  that build the same expression perform the same roundings and return the same double.
\<close>

datatype pyfloat =
    Float_1_0
  | TrueDiv int int
  | IntMinus int pyfloat
  | FDiv pyfloat pyfloat
  | FMul pyfloat pyfloat

text \<open>
  \<open>factor = (1 - w / p) / (1 - 1 / p)\<close>. The division \<open>w / p\<close> raises ZeroDivisionError for
  \<open>p = 0\<close>, and the outer one does for \<open>p = 1\<close>, the only integer with \<open>1 - 1 / p = 0.0\<close>.
\<close>

definition local_factor :: "int \<Rightarrow> int \<Rightarrow> error + pyfloat" where
  "local_factor w p =
     (if p = 0 then Inl ZeroDivisionError
      else if p = 1 then Inl ZeroDivisionError
      else Inr (FDiv (IntMinus 1 (TrueDiv w p)) (IntMinus 1 (TrueDiv 1 p))))"

text \<open>
  The loop of \<open>compute_CQ\<close> over the sieved primes, on the state
  \<open>(C_Q, n_shield, n_split)\<close>. Printing, and the predictions that the verbose mode prints
  from the final \<open>C_Q\<close>, do not change the returned value and are left out.
\<close>

fun CQ_loop :: "int list \<Rightarrow> pyfloat \<times> int \<times> int \<Rightarrow> error + pyfloat \<times> int \<times> int" where
  "CQ_loop [] state = Inr state"
| "CQ_loop (p # primes) (C_Q, n_shield, n_split) =
     (let w = omega_Q p in
      case local_factor w p of
        Inl e \<Rightarrow> Inl e
      | Inr factor \<Rightarrow>
          (let C_Q = FMul C_Q factor in
           if w = 0 then CQ_loop primes (C_Q, n_shield + 1, n_split)
           else CQ_loop primes (C_Q, n_shield, n_split + 1)))"

definition compute_CQ :: "int \<Rightarrow> error + pyfloat" where
  "compute_CQ p_max =
     (case sieve_primes p_max of
        Inl e \<Rightarrow> Inl e
      | Inr primes \<Rightarrow>
         (case CQ_loop primes (Float_1_0, 0, 0) of
            Inl e \<Rightarrow> Inl e
          | Inr (C_Q, n_shield, n_split) \<Rightarrow> Inr C_Q))"

section \<open>Notions used to state the properties\<close>

text \<open>Primality by trial division, as the specification's test of the sieve has it.\<close>

definition trial_prime :: "nat \<Rightarrow> bool" where
  "trial_prime p \<longleftrightarrow> 2 \<le> p \<and> (\<forall>d\<in>{2..<p}. \<not> d dvd p)"

text \<open>
  The specification's reading of \<open>compute_CQ\<close>: the primes up to \<open>p_max\<close> in ascending
  order, the local factor of a prime, and the left fold of the multiplication from \<open>1.0\<close>.
\<close>

definition euler_factor :: "int \<Rightarrow> pyfloat" where
  "euler_factor p = FDiv (IntMinus 1 (TrueDiv (omega_Q p) p)) (IntMinus 1 (TrueDiv 1 p))"

definition primes_ascending :: "int \<Rightarrow> int list" where
  "primes_ascending p_max = filter (\<lambda>p. trial_prime (nat p)) [2..p_max]"

definition CQ_left_fold :: "int \<Rightarrow> pyfloat" where
  "CQ_left_fold p_max = foldl (\<lambda>acc p. FMul acc (euler_factor p)) Float_1_0 (primes_ascending p_max)"

text \<open>
  Integer polynomials as coefficient lists, lowest degree first, with Horner evaluation;
  \<open>quotient a cs\<close> is the quotient of \<open>cs\<close> by \<open>x - a\<close> (synthetic division), and
  \<open>roots p cs\<close> the residues below \<open>p\<close> at which \<open>cs\<close> vanishes modulo \<open>p\<close>.
\<close>

fun poly :: "int list \<Rightarrow> int \<Rightarrow> int" where
  "poly [] x = 0"
| "poly (c # cs) x = c + x * poly cs x"

fun quotient :: "int \<Rightarrow> int list \<Rightarrow> int list" where
  "quotient a [] = []"
| "quotient a [c] = []"
| "quotient a (c # d # ds) = poly (d # ds) a # quotient a (d # ds)"

definition roots :: "nat \<Rightarrow> int list \<Rightarrow> int set" where
  "roots p cs = {x \<in> {0..<int p}. int p dvd poly cs x}"

text \<open>The coefficients of \<open>Q(n) = n ^ 47 - (n - 1) ^ 47\<close>, a polynomial of degree 46.\<close>

definition Q_coeffs :: "int list" where
  "Q_coeffs = map (\<lambda>k. - (int (47 choose k) * (- 1) ^ (47 - k))) [0..<47]"

text \<open>
  The map \<open>x \<mapsto> x / (x - 1)\<close> modulo \<open>p\<close>, the inverse taken as a power: it sends the
  47th roots of unity other than 1 to the roots of \<open>Q\<close>.
\<close>

definition nu :: "nat \<Rightarrow> int \<Rightarrow> int" where
  "nu p x = (x * (x - 1) ^ (p - 2)) mod int p"

section \<open>The two classifiers are the same function\<close>

text \<open>
  C10. For every integer \<open>p\<close>, \<open>omega_Q\<close> of compute_bateman_horn.py and \<open>omega_theory\<close> of
  verify_local_obstruction.py return the same value.
\<close>

theorem omega_Q_eq_omega_theory: "omega_Q p = omega_theory p"
  unfolding omega_Q_def omega_theory_def by (rule refl)

section \<open>Primes, Euclid's lemma and Fermat's little theorem\<close>

lemma trial_prime_dvd: "trial_prime p \<Longrightarrow> d dvd p \<Longrightarrow> d = 1 \<or> d = p"
proof -
  assume p: "trial_prime p" and d: "d dvd p"
  have "p > 0" using p by (simp add: trial_prime_def)
  then have "d \<le> p" "d \<noteq> 0" using d by (auto intro: dvd_imp_le simp: dvd_def)
  show ?thesis
  proof (rule ccontr)
    assume "\<not> ?thesis"
    then have "d \<in> {2..<p}" using \<open>d \<le> p\<close> \<open>d \<noteq> 0\<close> by auto
    then show False using p d by (auto simp: trial_prime_def)
  qed
qed

lemma trial_prime_coprime_nat: "trial_prime p \<Longrightarrow> \<not> p dvd a \<Longrightarrow> coprime p (a::nat)"
proof -
  assume p: "trial_prime p" and a: "\<not> p dvd a"
  have "gcd p a dvd p" by simp
  then have "gcd p a = 1 \<or> gcd p a = p" using p by (rule trial_prime_dvd[rotated])
  moreover have "gcd p a \<noteq> p" using a by (metis gcd_dvd2)
  ultimately show ?thesis by (simp add: coprime_iff_gcd_eq_1)
qed

lemma trial_prime_coprime_int: "trial_prime p \<Longrightarrow> \<not> int p dvd a \<Longrightarrow> coprime (int p) a"
proof -
  assume p: "trial_prime p" and a: "\<not> int p dvd a"
  have "\<not> p dvd nat \<bar>a\<bar>" using a by simp
  then have "coprime p (nat \<bar>a\<bar>)" using p by (rule trial_prime_coprime_nat[rotated])
  then have "coprime (int p) (int (nat \<bar>a\<bar>))" by (simp only: coprime_int_iff)
  then show ?thesis by simp
qed

lemma trial_prime_dvd_mult: "trial_prime p \<Longrightarrow> int p dvd a * b \<Longrightarrow> int p dvd a \<or> int p dvd b"
  using trial_prime_coprime_int coprime_dvd_mult_right_iff by blast

lemma trial_prime_dvd_mult_nat: "trial_prime p \<Longrightarrow> p dvd a * b \<Longrightarrow> p dvd a \<or> p dvd (b::nat)"
  using trial_prime_coprime_nat coprime_dvd_mult_right_iff by blast

lemma trial_prime_dvd_choose:
  assumes "trial_prime p" "0 < k" "k < p"
  shows "p dvd (p choose k)"
proof -
  have "k * (p choose k) = p * ((p - 1) choose (k - 1))"
    using assms(2) by (rule times_binomial_minus1_eq)
  then have "p dvd k * (p choose k)" by (simp only: dvd_triv_left)
  moreover have "\<not> p dvd k" using assms(2,3) by (auto dest: dvd_imp_le)
  ultimately show ?thesis using trial_prime_dvd_mult_nat[OF assms(1)] by blast
qed

lemma fermat_nat:
  assumes p: "trial_prime p"
  shows "(a::nat) ^ p mod p = a mod p"
proof (induction a)
  case 0
  have "p > 0" using p by (simp add: trial_prime_def)
  then show ?case by (simp add: zero_power)
next
  case (Suc a)
  have p2: "2 \<le> p" using p by (simp add: trial_prime_def)
  have "(a + 1) ^ p = (\<Sum>k\<le>p. (p choose k) * a ^ k * 1 ^ (p - k))"
    using binomial[of a 1 p] by simp
  also have "\<dots> = (\<Sum>k\<le>p. (p choose k) * a ^ k)" by simp
  finally have e: "(a + 1) ^ p = (\<Sum>k\<le>p. (p choose k) * a ^ k)" .
  have "{..p} = insert 0 (insert p {1..<p})" using p2 by auto
  then have "(\<Sum>k\<le>p. (p choose k) * a ^ k) = 1 + a ^ p + (\<Sum>k\<in>{1..<p}. (p choose k) * a ^ k)"
    using p2 by simp
  moreover have "p dvd (\<Sum>k\<in>{1..<p}. (p choose k) * a ^ k)"
    by (rule dvd_sum) (auto intro!: dvd_mult2 trial_prime_dvd_choose[OF p])
  ultimately have "(a + 1) ^ p mod p = (1 + a ^ p) mod p"
    using e by (metis dvd_def mod_mult_self2)
  also have "\<dots> = (1 + a) mod p" using Suc by (metis mod_add_right_eq)
  finally show ?case by simp
qed

lemma fermat_int:
  assumes p: "trial_prime p"
  shows "(a::int) ^ p mod int p = a mod int p"
proof -
  have p0: "0 < int p" using p by (simp add: trial_prime_def)
  define r where "r = nat (a mod int p)"
  have r: "int r = a mod int p" using p0 by (simp add: r_def)
  have "a ^ p mod int p = (a mod int p) ^ p mod int p" by (simp only: power_mod)
  also have "\<dots> = int (r ^ p mod p)" by (simp add: r[symmetric] zmod_int)
  also have "\<dots> = int (r mod p)" by (simp only: fermat_nat[OF p])
  also have "\<dots> = a mod int p" by (simp add: zmod_int r)
  finally show ?thesis .
qed

lemma fermat_cycle:
  assumes p: "trial_prime p"
  shows "(a::int) ^ (1 + k * (p - 1)) mod int p = a mod int p"
proof (induction k)
  case 0
  show ?case by simp
next
  case (Suc k)
  have p1: "1 \<le> p" using p by (simp add: trial_prime_def)
  have "1 + Suc k * (p - 1) = (1 + k * (p - 1)) + (p - 1)" by simp
  then have "a ^ (1 + Suc k * (p - 1)) = a ^ (1 + k * (p - 1)) * a ^ (p - 1)"
    by (simp only: power_add)
  then have "a ^ (1 + Suc k * (p - 1)) mod int p
      = (a ^ (1 + k * (p - 1)) mod int p) * a ^ (p - 1) mod int p"
    by (simp only: mod_mult_left_eq)
  also have "\<dots> = a * a ^ (p - 1) mod int p"
    by (simp only: Suc.IH mod_mult_left_eq)
  also have "a * a ^ (p - 1) = a ^ p" using p1 by (metis power_eq_if not_one_le_zero)
  finally show ?case by (simp only: fermat_int[OF p])
qed

lemma trial_prime_47: "trial_prime 47"
  by code_simp

lemma coprime_47: "\<not> 47 dvd (m::nat) \<Longrightarrow> coprime 47 m"
  using trial_prime_coprime_nat[OF trial_prime_47] .

lemma power47_inj_mod:
  assumes p: "trial_prime p" and np: "\<not> 47 dvd (p - 1)"
    and e: "(n::int) ^ 47 mod int p = m ^ 47 mod int p"
  shows "n mod int p = m mod int p"
proof -
  have "gcd 47 (p - 1) = 1" using coprime_47[OF np] by (simp add: coprime_iff_gcd_eq_1)
  moreover have "\<exists>x y. 47 * x = (p - 1) * y + gcd 47 (p - 1)"
    by (rule bezout_nat) simp
  ultimately obtain x y where xy: "47 * x = 1 + y * (p - 1)" by (auto simp: mult.commute)
  have "(n ^ 47) ^ x mod int p = (m ^ 47) ^ x mod int p"
    using e by (metis power_mod)
  then have "n ^ (47 * x) mod int p = m ^ (47 * x) mod int p"
    by (simp only: power_mult)
  then show ?thesis by (simp only: xy fermat_cycle[OF p])
qed

lemma q_residue_eq: "q_residue n p = (n ^ 47 - (n - 1) ^ 47) mod p"
  by (simp add: q_residue_def py_pow_def power_mod mod_diff_eq)

lemma q_residue_inert:
  assumes p: "trial_prime p" and np: "\<not> 47 dvd (p - 1)"
  shows "q_residue n (int p) \<noteq> 0"
proof
  assume "q_residue n (int p) = 0"
  then have "n ^ 47 mod int p = (n - 1) ^ 47 mod int p"
    by (simp add: q_residue_eq mod_eq_dvd_iff dvd_eq_mod_eq_0)
  then have "n mod int p = (n - 1) mod int p" by (rule power47_inj_mod[OF p np])
  then have "int p dvd 1" by (simp add: mod_eq_dvd_iff)
  then show False using p by (simp add: trial_prime_def)
qed

lemma q_residue_47: "q_residue n 47 = 1"
proof -
  have "n ^ 47 mod 47 = n mod 47" "(n - 1) ^ 47 mod 47 = (n - 1) mod 47"
    using fermat_int[OF trial_prime_47] by simp_all
  then have "(n ^ 47 - (n - 1) ^ 47) mod 47 = (n - (n - 1)) mod 47"
    by (metis mod_diff_eq)
  then show ?thesis by (simp add: q_residue_eq)
qed

section \<open>Roots of a polynomial modulo a prime\<close>

lemma length_quotient: "length (quotient a cs) = length cs - 1"
  by (induction a cs rule: quotient.induct) simp_all

lemma last_quotient: "2 \<le> length cs \<Longrightarrow> last (quotient a cs) = last cs"
proof (induction a cs rule: quotient.induct)
  case (3 a c d ds)
  show ?case
  proof (cases ds)
    case Nil
    then show ?thesis by simp
  next
    case (Cons e es)
    then have "quotient a (d # ds) \<noteq> []" by simp
    then show ?thesis using 3 Cons by simp
  qed
qed simp_all

lemma poly_quotient: "poly cs x = poly cs a + (x - a) * poly (quotient a cs) x"
proof (induction a cs rule: quotient.induct)
  case (3 a c d ds)
  have "poly (c # d # ds) x
      = c + x * (poly (d # ds) a + (x - a) * poly (quotient a (d # ds)) x)"
    using 3 by simp
  also have "\<dots> = (c + a * poly (d # ds) a)
      + (x - a) * (poly (d # ds) a + x * poly (quotient a (d # ds)) x)"
    by (simp add: algebra_simps)
  finally show ?case by simp
qed simp_all

lemma finite_roots: "finite (roots p cs)"
proof -
  have "roots p cs \<subseteq> {0..<int p}" by (auto simp: roots_def)
  then show ?thesis by (rule finite_subset) simp
qed

lemma roots_bound:
  assumes p: "trial_prime p"
  shows "cs \<noteq> [] \<Longrightarrow> \<not> int p dvd last cs \<Longrightarrow> card (roots p cs) \<le> length cs - 1"
proof (induction "length cs" arbitrary: cs)
  case 0
  then show ?case by simp
next
  case (Suc k)
  show ?case
  proof (cases "roots p cs = {}")
    case True
    then show ?thesis by simp
  next
    case False
    then obtain a where a: "a \<in> roots p cs" by auto
    show ?thesis
    proof (cases "k = 0")
      case True
      then obtain c where "cs = [c]" using Suc.hyps(2) by (cases cs) auto
      then show ?thesis using a Suc.prems by (simp add: roots_def)
    next
      case k: False
      let ?q = "quotient a cs"
      have len: "length ?q = k" using Suc.hyps(2) by (simp add: length_quotient)
      have ne: "?q \<noteq> []" using len k by auto
      have "last ?q = last cs" using Suc.hyps(2) k by (intro last_quotient) simp
      then have ih: "card (roots p ?q) \<le> k - 1"
        using Suc.hyps(1)[of ?q] len ne Suc.prems(2) by simp
      have "roots p cs \<subseteq> insert a (roots p ?q)"
      proof
        fix x assume x: "x \<in> roots p cs"
        show "x \<in> insert a (roots p ?q)"
        proof (cases "x = a")
          case True
          then show ?thesis by simp
        next
          case False
          have "int p dvd poly cs x" "int p dvd poly cs a" using x a by (simp_all add: roots_def)
          moreover have "poly cs x = poly cs a + (x - a) * poly ?q x" by (rule poly_quotient)
          ultimately have "int p dvd (x - a) * poly ?q x" by (simp add: dvd_add_right_iff)
          moreover have "\<not> int p dvd (x - a)"
          proof
            assume "int p dvd (x - a)"
            then have "int p dvd \<bar>x - a\<bar>" by simp
            moreover have "\<bar>x - a\<bar> < int p" "0 < \<bar>x - a\<bar>" using x a False by (auto simp: roots_def)
            ultimately show False using zdvd_not_zless by blast
          qed
          ultimately have "int p dvd poly ?q x" using trial_prime_dvd_mult[OF p] by blast
          then show ?thesis using x by (simp add: roots_def)
        qed
      qed
      then have "card (roots p cs) \<le> card (insert a (roots p ?q))"
        by (intro card_mono) (simp_all add: finite_roots)
      also have "\<dots> \<le> Suc (card (roots p ?q))" by (simp add: card_insert_if finite_roots)
      also have "\<dots> \<le> k" using ih k by simp
      finally show ?thesis using Suc.hyps(2) by simp
    qed
  qed
qed

lemma poly_append: "poly (xs @ ys) x = poly xs x + x ^ length xs * poly ys x"
  by (induction xs) (simp_all add: algebra_simps)

lemma poly_map_upt: "poly (map f [0..<m]) x = (\<Sum>k<m. f k * x ^ k)"
  by (induction m) (simp_all add: poly_append)

lemma length_Q_coeffs: "length Q_coeffs = 47"
  by (simp add: Q_coeffs_def)

lemma last_Q_coeffs: "last Q_coeffs = 47"
proof -
  have "[0..<47] = [0..<46] @ [46]" using upt_Suc_append[of 0 46] by simp
  then have "last Q_coeffs = - (int (47 choose 46) * (- 1) ^ (47 - 46))"
    by (simp add: Q_coeffs_def)
  moreover have "(47::nat) choose 46 = 47" using binomial_Suc_n[of 46] by simp
  ultimately show ?thesis by simp
qed

lemma poly_Q_coeffs: "poly Q_coeffs n = n ^ 47 - (n - 1) ^ 47"
proof -
  have "(n + (- 1)) ^ 47 = (\<Sum>k\<le>47. int (47 choose k) * n ^ k * (- 1) ^ (47 - k))"
    by (rule binomial_ring)
  also have "{..47::nat} = insert 47 {..<47}" by auto
  also have "(\<Sum>k\<in>insert 47 {..<47}. int (47 choose k) * n ^ k * (- 1) ^ (47 - k))
      = n ^ 47 + (\<Sum>k<47. int (47 choose k) * n ^ k * (- 1) ^ (47 - k))"
    by simp
  finally have "n ^ 47 - (n - 1) ^ 47 = - (\<Sum>k<47. int (47 choose k) * n ^ k * (- 1) ^ (47 - k))"
    by simp
  also have "\<dots> = (\<Sum>k<47. - (int (47 choose k) * (- 1) ^ (47 - k)) * n ^ k)"
    by (simp add: sum_negf algebra_simps)
  finally show ?thesis by (simp add: Q_coeffs_def poly_map_upt)
qed

lemma trial_prime_not_dvd_47:
  assumes p: "trial_prime p" and ne: "p \<noteq> 47"
  shows "\<not> int p dvd 47"
proof
  assume "int p dvd 47"
  then have "int p dvd int 47" by simp
  then have "p dvd 47" by (simp only: int_dvd_int_iff)
  then have "p = 1 \<or> p = 47" using trial_prime_47 by (rule trial_prime_dvd[rotated])
  then show False using p ne by (auto simp: trial_prime_def)
qed

lemma Q_roots_le:
  assumes p: "trial_prime p" and ne: "p \<noteq> 47"
  shows "card (roots p Q_coeffs) \<le> 46"
proof -
  have "Q_coeffs \<noteq> []" using length_Q_coeffs by auto
  moreover have "\<not> int p dvd last Q_coeffs"
    using trial_prime_not_dvd_47[OF p ne] by (simp add: last_Q_coeffs)
  ultimately have "card (roots p Q_coeffs) \<le> length Q_coeffs - 1"
    by (rule roots_bound[OF p])
  then show ?thesis by (simp add: length_Q_coeffs)
qed

lemma poly_replicate0: "poly (replicate m 0 @ ds) x = x ^ m * poly ds x"
  by (induction m) simp_all

lemma poly_xk_minus_1: "poly ((- 1) # replicate k 0 @ [1]) x = x ^ (Suc k) - 1"
  by (simp add: poly_replicate0)

section \<open>Elements of order 47 and the roots of Q modulo a prime\<close>

lemma trial_prime_dvd_power:
  assumes p: "trial_prime p" shows "int p dvd a ^ k \<Longrightarrow> int p dvd a"
proof (induction k)
  case 0
  then have "int p dvd 1" by simp
  then show ?case using p by (simp add: trial_prime_def)
next
  case (Suc k)
  then have "int p dvd a * a ^ k" by simp
  then have "int p dvd a \<or> int p dvd a ^ k" by (rule trial_prime_dvd_mult[OF p])
  then show ?case using Suc.IH by blast
qed

lemma little_fermat:
  assumes p: "trial_prime p" and a: "\<not> int p dvd a"
  shows "int p dvd a ^ (p - 1) - 1"
proof -
  have p1: "1 \<le> p" using p by (simp add: trial_prime_def)
  have "a ^ p mod int p = a mod int p" by (rule fermat_int[OF p])
  then have "int p dvd a ^ p - a" by (simp only: mod_eq_dvd_iff)
  moreover have "a ^ p = a * a ^ (p - 1)" using p1 by (simp add: power_eq_if)
  ultimately have "int p dvd a * (a ^ (p - 1) - 1)" by (simp add: algebra_simps)
  then show ?thesis using trial_prime_dvd_mult[OF p] a by blast
qed

lemma cong_power:
  assumes "(m::int) dvd a - b" shows "m dvd a ^ k - b ^ k"
proof -
  have "a mod m = b mod m" using assms by (simp only: mod_eq_dvd_iff)
  then have "(a mod m) ^ k mod m = (b mod m) ^ k mod m" by simp
  then have "a ^ k mod m = b ^ k mod m" by (simp only: power_mod)
  then show ?thesis by (simp only: mod_eq_dvd_iff)
qed

lemma cong_mult:
  assumes "(m::int) dvd a - b" "m dvd c - d" shows "m dvd a * c - b * d"
proof -
  have "a * c - b * d = (a - b) * c + b * (c - d)" by (simp add: algebra_simps)
  then show ?thesis using assms by simp
qed

text \<open>An element whose 47th power is 1 and which is not 1 has no smaller power equal to 1.\<close>

lemma order_47:
  assumes p: "trial_prime p" and g47: "int p dvd g ^ 47 - 1" and g1: "\<not> int p dvd g - 1"
    and d: "0 < d" "d < 47"
  shows "\<not> int p dvd g ^ d - 1"
proof
  assume gd: "int p dvd g ^ d - 1"
  have "\<not> 47 dvd d" using d by (auto dest: dvd_imp_le)
  then have "coprime 47 d" by (rule coprime_47)
  then have "gcd d 47 = 1" by (simp add: coprime_iff_gcd_eq_1 gcd.commute)
  moreover have "\<exists>x y. d * x = 47 * y + gcd d 47" using d(1) by (intro bezout_nat) simp
  ultimately obtain x y where xy: "d * x = 47 * y + 1" by auto
  have "int p dvd (g ^ d) ^ x - 1 ^ x" using gd by (rule cong_power)
  then have a: "int p dvd g ^ (d * x) - 1" by (simp add: power_mult)
  have "int p dvd (g ^ 47) ^ y - 1 ^ y" using g47 by (rule cong_power)
  then have "int p dvd g ^ (47 * y) - 1" by (simp add: power_mult)
  then have "int p dvd g ^ (47 * y) * g - 1 * g" by (intro cong_mult) simp_all
  then have b: "int p dvd g ^ (d * x) - g" by (simp add: xy mult.commute)
  have "int p dvd (g ^ (d * x) - 1) - (g ^ (d * x) - g)" using a b by (rule dvd_diff)
  then show False using g1 by simp
qed

lemma not_dvd_unit_power:
  assumes p: "trial_prime p" and gk: "int p dvd g ^ k - 1" and k: "0 < k"
  shows "\<not> int p dvd g"
proof
  assume "int p dvd g"
  then have "int p dvd g ^ k" using k by (cases k) simp_all
  then have "int p dvd g ^ k - (g ^ k - 1)" using gk by (rule dvd_diff)
  then have "int p dvd 1" by simp
  then show False using p by (simp add: trial_prime_def)
qed

lemma order_47_distinct:
  assumes p: "trial_prime p" and g47: "int p dvd g ^ 47 - 1" and g1: "\<not> int p dvd g - 1"
    and ij: "i < j" "j < 47" and e: "int p dvd g ^ j - g ^ i"
  shows False
proof -
  have "g ^ j - g ^ i = g ^ i * (g ^ (j - i) - 1)"
    using ij(1) by (simp add: algebra_simps power_add[symmetric])
  then have "int p dvd g ^ i * (g ^ (j - i) - 1)" using e by simp
  moreover have "\<not> int p dvd g ^ i"
    using trial_prime_dvd_power[OF p] not_dvd_unit_power[OF p g47] by auto
  ultimately have "int p dvd g ^ (j - i) - 1" using trial_prime_dvd_mult[OF p] by blast
  moreover have "\<not> int p dvd g ^ (j - i) - 1"
    using ij by (intro order_47[OF p g47 g1]) simp_all
  ultimately show False by simp
qed

lemma not_dvd_small:
  assumes "0 < (x::int)" "x < m" shows "\<not> m dvd x"
  using assms zdvd_not_zless by blast

lemma cong_small_eq:
  assumes "(m::int) dvd x - y" "0 \<le> x" "x < m" "0 \<le> y" "y < m" shows "x = y"
proof (rule ccontr)
  assume "x \<noteq> y"
  then have "0 < \<bar>x - y\<bar>" "\<bar>x - y\<bar> < m" using assms by auto
  then have "\<not> m dvd \<bar>x - y\<bar>" by (rule not_dvd_small)
  then show False using assms(1) by simp
qed

lemma exists_order_47:
  assumes p: "trial_prime p" and s: "47 dvd (p - 1)"
  shows "\<exists>g. int p dvd g ^ 47 - 1 \<and> \<not> int p dvd g - 1"
proof -
  have p2: "2 \<le> p" using p by (simp add: trial_prime_def)
  obtain k where k: "p - 1 = k * 47" using s by (auto simp: dvd_def mult.commute)
  then have "k \<noteq> 0" using p2 by (cases k) auto
  then obtain k' where k': "k = Suc k'" by (cases k) auto
  define cs :: "int list" where "cs = (- 1) # replicate k' 0 @ [1]"
  have pc: "poly cs x = x ^ k - 1" for x unfolding cs_def k' by (rule poly_xk_minus_1)
  have "cs \<noteq> []" "\<not> int p dvd last cs" using p2 by (simp_all add: cs_def)
  then have "card (roots p cs) \<le> length cs - 1" by (rule roots_bound[OF p])
  then have le: "card (roots p cs) \<le> k" by (simp add: cs_def k')
  have "card {1..<int p} = p - 1" by simp
  then have "k < card {1..<int p}" using k \<open>k \<noteq> 0\<close> by simp
  then have "\<not> {1..<int p} \<subseteq> roots p cs"
    using le card_mono[OF finite_roots, of "{1..<int p}" p cs] by auto
  then obtain h where h: "h \<in> {1..<int p}" "h \<notin> roots p cs" by blast
  then have hk: "\<not> int p dvd h ^ k - 1" by (simp add: roots_def pc)
  have "\<not> int p dvd h" using h(1) by (intro not_dvd_small) simp_all
  then have "int p dvd h ^ (p - 1) - 1" by (rule little_fermat[OF p])
  then have "int p dvd (h ^ k) ^ 47 - 1" by (simp only: k power_mult)
  then show ?thesis using hk by blast
qed

lemma nu_props:
  assumes p: "trial_prime p" and x47: "int p dvd x ^ 47 - 1" and x1: "\<not> int p dvd x - 1"
  shows "nu p x \<in> roots p Q_coeffs" and "int p dvd x * (nu p x - 1) - nu p x"
    and "\<not> int p dvd nu p x - 1"
proof -
  define n where "n = nu p x"
  define y where "y = x - 1"
  have p2: "2 \<le> p" using p by (simp add: trial_prime_def)
  have ny: "\<not> int p dvd y" using x1 by (simp add: y_def)
  have "n mod int p = (x * y ^ (p - 2)) mod int p" by (simp add: n_def nu_def y_def)
  then have "int p dvd n - x * y ^ (p - 2)" by (simp only: mod_eq_dvd_iff)
  then have "int p dvd n * y - (x * y ^ (p - 2)) * y" by (intro cong_mult) simp_all
  moreover have "y ^ (p - 2) * y = y ^ (p - 1)"
  proof -
    have "p - 1 = Suc (p - 2)" using p2 by simp
    then show ?thesis by (simp only: power_Suc2)
  qed
  ultimately have a: "int p dvd n * y - x * y ^ (p - 1)" by (simp add: mult.assoc)
  have "int p dvd y ^ (p - 1) - 1" using ny by (rule little_fermat[OF p])
  then have "int p dvd x * y ^ (p - 1) - x * 1" by (intro cong_mult) simp_all
  then have "int p dvd (n * y - x * y ^ (p - 1)) + (x * y ^ (p - 1) - x * 1)"
    using a by (intro dvd_add)
  then have key1: "int p dvd n * y - x" by simp
  have "(n - 1) * y - 1 = n * y - x" by (simp add: y_def algebra_simps)
  then have key2: "int p dvd (n - 1) * y - 1" using key1 by simp
  have b: "int p dvd (n * y) ^ 47 - x ^ 47" using key1 by (rule cong_power)
  have "int p dvd ((n - 1) * y) ^ 47 - 1 ^ 47" using key2 by (rule cong_power)
  then have c: "int p dvd ((n - 1) * y) ^ 47 - 1" by simp
  have "int p dvd ((n * y) ^ 47 - x ^ 47) + (x ^ 47 - 1)" using b x47 by (rule dvd_add)
  then have "int p dvd (n * y) ^ 47 - 1" by simp
  then have "int p dvd ((n * y) ^ 47 - 1) - (((n - 1) * y) ^ 47 - 1)" using c by (rule dvd_diff)
  then have "int p dvd (n * y) ^ 47 - ((n - 1) * y) ^ 47" by simp
  moreover have "(n * y) ^ 47 - ((n - 1) * y) ^ 47 = (n ^ 47 - (n - 1) ^ 47) * y ^ 47"
    by (simp only: power_mult_distrib[symmetric] left_diff_distrib)
  ultimately have "int p dvd (n ^ 47 - (n - 1) ^ 47) * y ^ 47" by simp
  moreover have "\<not> int p dvd y ^ 47" using trial_prime_dvd_power[OF p] ny by blast
  ultimately have "int p dvd n ^ 47 - (n - 1) ^ 47" using trial_prime_dvd_mult[OF p] by blast
  moreover have "0 \<le> n" "n < int p" using p2 by (simp_all add: n_def nu_def)
  ultimately show "nu p x \<in> roots p Q_coeffs"
    by (simp add: roots_def poly_Q_coeffs n_def)
  have "x * (n - 1) - n = n * y - x" by (simp add: y_def algebra_simps)
  then show "int p dvd x * (nu p x - 1) - nu p x" using key1 by (simp add: n_def)
  show "\<not> int p dvd nu p x - 1"
  proof
    assume "int p dvd nu p x - 1"
    then have "int p dvd (n - 1) * y" by (simp add: n_def)
    then have "int p dvd (n - 1) * y - ((n - 1) * y - 1)" using key2 by (rule dvd_diff)
    then have "int p dvd 1" by simp
    then show False using p2 by simp
  qed
qed

lemma Q_roots_ge:
  assumes p: "trial_prime p" and s: "47 dvd (p - 1)"
  shows "46 \<le> card (roots p Q_coeffs)"
proof -
  have p2: "2 \<le> p" using p by (simp add: trial_prime_def)
  obtain g where g47: "int p dvd g ^ 47 - 1" and g1: "\<not> int p dvd g - 1"
    using exists_order_47[OF p s] by blast
  define f where "f = (\<lambda>j::nat. g ^ j mod int p)"
  define X where "X = f ` {1..46}"
  have f_cong: "int p dvd f j - g ^ j" for j
  proof -
    have "f j mod int p = g ^ j mod int p" by (simp add: f_def)
    then show ?thesis by (simp only: mod_eq_dvd_iff)
  qed
  have f_range: "0 \<le> f j \<and> f j < int p" for j using p2 by (simp add: f_def)
  have neq: False if "i < j" "j < 47" "f i = f j" for i j
  proof -
    have "int p dvd (f j - g ^ j) - (f i - g ^ i)" using f_cong f_cong by (rule dvd_diff)
    then have "int p dvd g ^ i - g ^ j" using that(3) by simp
    then have "int p dvd g ^ j - g ^ i" by (simp only: dvd_diff_commute)
    then show False using that(1,2) order_47_distinct[OF p g47 g1] by blast
  qed
  have "inj_on f {1..46}"
  proof (rule inj_onI)
    fix i j assume "i \<in> {1..46::nat}" "j \<in> {1..46::nat}" "f i = f j"
    then show "i = j" using neq[of i j] neq[of j i] by (cases i j rule: linorder_cases) auto
  qed
  then have cardX: "card X = 46" by (simp add: X_def card_image)
  have X47: "int p dvd x ^ 47 - 1" and X1: "\<not> int p dvd x - 1"
    and Xr: "0 \<le> x \<and> x < int p" if xX: "x \<in> X" for x
  proof -
    obtain j where j: "1 \<le> j" "j \<le> 46" and x: "x = f j" using xX by (auto simp: X_def)
    show "0 \<le> x \<and> x < int p" using f_range by (simp add: x)
    have "int p dvd (f j) ^ 47 - (g ^ j) ^ 47" using f_cong by (rule cong_power)
    moreover have "int p dvd (g ^ 47) ^ j - 1 ^ j" using g47 by (rule cong_power)
    moreover have "(g ^ j) ^ 47 = (g ^ 47) ^ j" by (simp only: power_mult[symmetric] mult.commute)
    ultimately have "int p dvd ((f j) ^ 47 - (g ^ 47) ^ j) + ((g ^ 47) ^ j - 1)"
      by (intro dvd_add) simp_all
    then show "int p dvd x ^ 47 - 1" by (simp add: x)
    show "\<not> int p dvd x - 1"
    proof
      assume "int p dvd x - 1"
      then have "int p dvd (f j - 1) - (f j - g ^ j)" using f_cong unfolding x by (rule dvd_diff)
      then have "int p dvd g ^ j - 1" by simp
      then show False using order_47[OF p g47 g1, of j] j by simp
    qed
  qed
  have "inj_on (nu p) X"
  proof (rule inj_onI)
    fix x x' assume x: "x \<in> X" and x': "x' \<in> X" and e: "nu p x = nu p x'"
    define n where "n = nu p x"
    have a: "int p dvd x * (n - 1) - n" unfolding n_def using X47[OF x] X1[OF x] by (rule nu_props(2)[OF p])
    have b: "int p dvd x' * (n - 1) - n" unfolding n_def e using X47[OF x'] X1[OF x'] by (rule nu_props(2)[OF p])
    have c: "\<not> int p dvd n - 1" unfolding n_def using X47[OF x] X1[OF x] by (rule nu_props(3)[OF p])
    have "int p dvd (x * (n - 1) - n) - (x' * (n - 1) - n)" using a b by (rule dvd_diff)
    then have "int p dvd (x - x') * (n - 1)" by (simp add: algebra_simps)
    then have "int p dvd x - x'" using c trial_prime_dvd_mult[OF p] by blast
    then show "x = x'" using Xr[OF x] Xr[OF x'] by (intro cong_small_eq[of "int p"]) simp_all
  qed
  then have "card (nu p ` X) = 46" using cardX by (simp add: card_image)
  moreover have "nu p ` X \<subseteq> roots p Q_coeffs"
    using nu_props(1)[OF p X47 X1] by blast
  ultimately show ?thesis using card_mono[OF finite_roots, of "nu p ` X" p Q_coeffs] by simp
qed

lemma Q_roots_split:
  assumes p: "trial_prime p" and s: "47 dvd (p - 1)"
  shows "card (roots p Q_coeffs) = 46"
proof -
  have "p \<noteq> 47" using s by auto
  then have "card (roots p Q_coeffs) \<le> 46" by (rule Q_roots_le[OF p])
  then show ?thesis using Q_roots_ge[OF p s] by simp
qed

lemma count_loop:
  "foldl (\<lambda>count n. let q = f n in if q = 0 then count + 1 else count) c ns
     = c + int (length (filter (\<lambda>n. f n = (0::int)) ns))"
  by (induction ns arbitrary: c) (simp_all add: Let_def)

lemma omega_brute_force_card:
  "omega_brute_force p = int (card {n \<in> {0..<p}. q_residue n p = 0})"
proof -
  have "distinct (filter (\<lambda>n. q_residue n p = 0) [0..p - 1])" by simp
  then have "length (filter (\<lambda>n. q_residue n p = 0) [0..p - 1])
      = card (set (filter (\<lambda>n. q_residue n p = 0) [0..p - 1]))"
    by (simp only: distinct_card)
  moreover have "set (filter (\<lambda>n. q_residue n p = 0) [0..p - 1]) = {n \<in> {0..<p}. q_residue n p = 0}"
    by auto
  ultimately show ?thesis unfolding omega_brute_force_def count_loop by simp
qed

lemma q_residue_roots: "{n \<in> {0..<int p}. q_residue n (int p) = 0} = roots p Q_coeffs"
  by (auto simp: roots_def poly_Q_coeffs q_residue_eq dvd_eq_mod_eq_0)

lemma omega_agree:
  assumes p: "trial_prime p"
  shows "omega_brute_force (int p) = omega_theory (int p)"
proof (cases "47 dvd (p - 1)")
  case True
  have p1: "1 \<le> p" using p by (simp add: trial_prime_def)
  have "int 47 dvd int (p - 1)" using True by (simp only: int_dvd_int_iff)
  then have "(int p - 1) mod 47 = 0" using p1 by (simp add: dvd_eq_mod_eq_0)
  moreover have "int p \<noteq> 47" using True by auto
  ultimately have "omega_theory (int p) = 46" by (simp add: omega_theory_def)
  moreover have "omega_brute_force (int p) = int (card (roots p Q_coeffs))"
    by (simp only: omega_brute_force_card q_residue_roots)
  ultimately show ?thesis by (simp add: Q_roots_split[OF p True])
next
  case False
  have p1: "1 \<le> p" using p by (simp add: trial_prime_def)
  have "\<not> int 47 dvd int (p - 1)" unfolding int_dvd_int_iff by (rule False)
  then have "(int p - 1) mod 47 \<noteq> 0" using p1 by (simp add: dvd_eq_mod_eq_0)
  then have "omega_theory (int p) = 0" by (simp add: omega_theory_def)
  moreover have "{n \<in> {0..<int p}. q_residue n (int p) = 0} = {}"
    using q_residue_inert[OF p False] by auto
  then have "omega_brute_force (int p) = int (card ({}::int set))"
    by (simp only: omega_brute_force_card)
  ultimately show ?thesis by simp
qed

section \<open>Correctness of the sieve\<close>

lemma isqrt_bounds: "isqrt n * isqrt n \<le> n \<and> n < (isqrt n + 1) * (isqrt n + 1)"
proof (induction n)
  case 0
  show ?case by simp
next
  case (Suc n)
  define r where "r = isqrt n"
  have ih: "r * r \<le> n" "n < (r + 1) * (r + 1)" using Suc by (simp_all add: r_def)
  show ?case
  proof (cases "(r + 1) * (r + 1) \<le> Suc n")
    case True
    then have e: "isqrt (Suc n) = r + 1" by (simp add: r_def Let_def)
    have "(r + 1) * (r + 1) < (r + 1 + 1) * (r + 1 + 1)" by (simp add: algebra_simps)
    then have "Suc n < (r + 1 + 1) * (r + 1 + 1)" using ih(2) by linarith
    then show ?thesis using True unfolding e by blast
  next
    case False
    then have e: "isqrt (Suc n) = r" by (simp add: r_def Let_def)
    have "r * r \<le> Suc n" using ih(1) by simp
    moreover have "Suc n < (r + 1) * (r + 1)" using False by simp
    ultimately show ?thesis unfolding e by blast
  qed
qed

lemma range3_index: "0 < s \<Longrightarrow> k < (m + s - 1) div s \<longleftrightarrow> k * s < (m::nat)"
proof -
  assume s: "0 < s"
  have "k < (m + s - 1) div s \<longleftrightarrow> Suc k \<le> (m + s - 1) div s" by auto
  also have "\<dots> \<longleftrightarrow> Suc k * s \<le> m + s - 1" using s by (simp only: less_eq_div_iff_mult_less_eq)
  also have "\<dots> \<longleftrightarrow> k * s < m" using s by auto
  finally show ?thesis .
qed

lemma set_py_range3:
  assumes s: "0 < s"
  shows "set (py_range3 a b s) = {j. a \<le> j \<and> j < b \<and> s dvd (j - a)}"
proof (rule set_eqI)
  fix j
  have "j \<in> set (py_range3 a b s) \<longleftrightarrow> (\<exists>k. k * s < b - a \<and> j = a + k * s)"
    using range3_index[OF s, of _ "b - a"] by (auto simp: py_range3_def)
  also have "\<dots> \<longleftrightarrow> a \<le> j \<and> j < b \<and> s dvd (j - a)"
  proof
    assume "\<exists>k. k * s < b - a \<and> j = a + k * s"
    then show "a \<le> j \<and> j < b \<and> s dvd (j - a)" by auto
  next
    assume h: "a \<le> j \<and> j < b \<and> s dvd (j - a)"
    then obtain k where "j - a = k * s" by (auto simp: dvd_def mult.commute)
    then have "k * s < b - a \<and> j = a + k * s" using h by auto
    then show "\<exists>k. k * s < b - a \<and> j = a + k * s" ..
  qed
  finally show "j \<in> set (py_range3 a b s) \<longleftrightarrow> j \<in> {j. a \<le> j \<and> j < b \<and> s dvd (j - a)}"
    by simp
qed

text \<open>
  The loops of the sieve stay inside the list of \<open>n + 1\<close> flags: the outer index is at most
  the integer square root of \<open>n\<close>, the inner one below \<open>n + 1\<close>.
\<close>

lemma sieve_indices_in_range:
  shows "isqrt n \<le> n" and "0 < i \<Longrightarrow> j \<in> set (py_range3 (i * i) (n + 1) i) \<Longrightarrow> j < n + 1"
proof -
  have "isqrt n \<le> isqrt n * isqrt n" by (cases "isqrt n") simp_all
  then show "isqrt n \<le> n" using isqrt_bounds[of n] by linarith
  show "j < n + 1" if "0 < i" "j \<in> set (py_range3 (i * i) (n + 1) i)"
    using that by (simp add: set_py_range3)
qed

lemma fold_strike_length: "length (fold (\<lambda>j a. a[j := False]) js a) = length a"
  by (induction js arbitrary: a) simp_all

lemma fold_strike_nth:
  "m < length a \<Longrightarrow> fold (\<lambda>j a. a[j := False]) js a ! m \<longleftrightarrow> a ! m \<and> m \<notin> set js"
proof (induction js arbitrary: a)
  case Nil
  show ?case by simp
next
  case (Cons j js)
  have "fold (\<lambda>j a. a[j := False]) js (a[j := False]) ! m
      \<longleftrightarrow> a[j := False] ! m \<and> m \<notin> set js"
    using Cons.prems by (intro Cons.IH) simp
  moreover have "a[j := False] ! m \<longleftrightarrow> a ! m \<and> m \<noteq> j"
    using Cons.prems by (cases "m = j") simp_all
  ultimately show ?case by auto
qed

lemma strike_multiples_nth:
  assumes i: "0 < i" and len: "length a = n + 1" and m: "m \<le> n"
  shows "strike_multiples i n a ! m \<longleftrightarrow> a ! m \<and> \<not> (i * i \<le> m \<and> i dvd m)"
proof -
  have "m < length a" using len m by simp
  then have "strike_multiples i n a ! m \<longleftrightarrow> a ! m \<and> m \<notin> set (py_range3 (i * i) (n + 1) i)"
    unfolding strike_multiples_def by (rule fold_strike_nth)
  moreover have "m \<in> set (py_range3 (i * i) (n + 1) i) \<longleftrightarrow> i * i \<le> m \<and> i dvd m"
  proof -
    have "i * i \<le> m \<Longrightarrow> i dvd (m - i * i) \<longleftrightarrow> i dvd m"
      using dvd_diffD[of i m "i * i"] dvd_diff_nat[of i m "i * i"] by auto
    then show ?thesis using m by (auto simp: set_py_range3[OF i])
  qed
  ultimately show ?thesis by simp
qed

lemma strike_multiples_length: "length (strike_multiples i n a) = length a"
  unfolding strike_multiples_def by (rule fold_strike_length)

lemma sieve_step_invariant:
  assumes k2: "2 \<le> k" and kn: "k \<le> n" and len: "length a = n + 1"
    and inv: "\<forall>m\<le>n. a ! m \<longleftrightarrow> 2 \<le> m \<and> (\<forall>d. 2 \<le> d \<and> d < k \<and> d * d \<le> m \<longrightarrow> \<not> d dvd m)"
  defines "a' \<equiv> (if a ! k then strike_multiples k n a else a)"
  shows "length a' = n + 1"
    and "\<forall>m\<le>n. a' ! m \<longleftrightarrow> 2 \<le> m \<and> (\<forall>d. 2 \<le> d \<and> d < Suc k \<and> d * d \<le> m \<longrightarrow> \<not> d dvd m)"
proof -
  show "length a' = n + 1" by (simp add: a'_def len strike_multiples_length)
  show "\<forall>m\<le>n. a' ! m \<longleftrightarrow> 2 \<le> m \<and> (\<forall>d. 2 \<le> d \<and> d < Suc k \<and> d * d \<le> m \<longrightarrow> \<not> d dvd m)"
  proof (intro allI impI)
    fix m assume m: "m \<le> n"
    have split: "(\<forall>d. 2 \<le> d \<and> d < Suc k \<and> d * d \<le> m \<longrightarrow> \<not> d dvd m)
        \<longleftrightarrow> (\<forall>d. 2 \<le> d \<and> d < k \<and> d * d \<le> m \<longrightarrow> \<not> d dvd m) \<and> \<not> (k * k \<le> m \<and> k dvd m)"
      using k2 by (auto simp: less_Suc_eq)
    show "a' ! m \<longleftrightarrow> 2 \<le> m \<and> (\<forall>d. 2 \<le> d \<and> d < Suc k \<and> d * d \<le> m \<longrightarrow> \<not> d dvd m)"
    proof (cases "a ! k")
      case True
      have "0 < k" using k2 by simp
      then have "a' ! m \<longleftrightarrow> a ! m \<and> \<not> (k * k \<le> m \<and> k dvd m)"
        using True strike_multiples_nth[OF _ len m, of k] by (simp add: a'_def)
      then show ?thesis using inv m split by blast
    next
      case False
      then obtain d where d: "2 \<le> d" "d < k" "d * d \<le> k" "d dvd k"
        using inv kn k2 by auto
      have "\<exists>e. 2 \<le> e \<and> e < k \<and> e * e \<le> m \<and> e dvd m" if "k * k \<le> m" "k dvd m"
      proof -
        have "k \<le> k * k" by simp
        then have "d * d \<le> m" using d(3) that(1) by linarith
        moreover have "d dvd m" using d(4) that(2) by (rule dvd_trans)
        ultimately show ?thesis using d(1,2) by blast
      qed
      then have "(\<forall>d. 2 \<le> d \<and> d < Suc k \<and> d * d \<le> m \<longrightarrow> \<not> d dvd m)
        \<longleftrightarrow> (\<forall>d. 2 \<le> d \<and> d < k \<and> d * d \<le> m \<longrightarrow> \<not> d dvd m)"
        unfolding split by blast
      moreover have "a' = a" using False by (simp add: a'_def)
      ultimately show ?thesis using inv m by simp
    qed
  qed
qed

lemma sieve_fold_invariant:
  assumes len: "length a = n + 1" and init: "\<forall>m\<le>n. a ! m \<longleftrightarrow> 2 \<le> m"
  shows "k \<le> n + 1 \<Longrightarrow>
    length (fold (\<lambda>i a. if a ! i then strike_multiples i n a else a) [2..<k] a) = n + 1
    \<and> (\<forall>m\<le>n. fold (\<lambda>i a. if a ! i then strike_multiples i n a else a) [2..<k] a ! m
          \<longleftrightarrow> 2 \<le> m \<and> (\<forall>d. 2 \<le> d \<and> d < k \<and> d * d \<le> m \<longrightarrow> \<not> d dvd m))"
proof (induction k)
  case 0
  show ?case using len init by simp
next
  case (Suc k)
  show ?case
  proof (cases "2 \<le> k")
    case False
    then have e: "[2..<Suc k] = []" by simp
    have "\<not> (2 \<le> d \<and> d < Suc k)" for d using False by simp
    then have "\<forall>m\<le>n. a ! m \<longleftrightarrow> 2 \<le> m \<and> (\<forall>d. 2 \<le> d \<and> d < Suc k \<and> d * d \<le> m \<longrightarrow> \<not> d dvd m)"
      using init by blast
    then show ?thesis using len unfolding e by simp
  next
    case True
    define b where "b = fold (\<lambda>i a. if a ! i then strike_multiples i n a else a) [2..<k] a"
    have ih: "length b = n + 1"
      "\<forall>m\<le>n. b ! m \<longleftrightarrow> 2 \<le> m \<and> (\<forall>d. 2 \<le> d \<and> d < k \<and> d * d \<le> m \<longrightarrow> \<not> d dvd m)"
      using Suc by (simp_all add: b_def)
    have kn: "k \<le> n" using Suc.prems by simp
    have "fold (\<lambda>i a. if a ! i then strike_multiples i n a else a) [2..<Suc k] a
        = (if b ! k then strike_multiples k n b else b)"
      using True by (simp add: b_def)
    then show ?thesis using sieve_step_invariant[OF True kn ih] by simp
  qed
qed

lemma trial_prime_sqrt_test:
  assumes m: "m \<le> n"
  shows "2 \<le> m \<and> (\<forall>d. 2 \<le> d \<and> d < isqrt n + 1 \<and> d * d \<le> m \<longrightarrow> \<not> d dvd m)
     \<longleftrightarrow> trial_prime m"
proof
  assume "trial_prime m"
  then have m2: "2 \<le> m" and nd: "\<And>d. 2 \<le> d \<Longrightarrow> d < m \<Longrightarrow> \<not> d dvd m"
    by (auto simp: trial_prime_def)
  have "\<not> d dvd m" if "2 \<le> d" "d * d \<le> m" for d
  proof -
    have "2 * d \<le> d * d" using that(1) by simp
    then have "d < m" using that by linarith
    then show ?thesis using nd that(1) by blast
  qed
  then show "2 \<le> m \<and> (\<forall>d. 2 \<le> d \<and> d < isqrt n + 1 \<and> d * d \<le> m \<longrightarrow> \<not> d dvd m)"
    using m2 by blast
next
  assume h: "2 \<le> m \<and> (\<forall>d. 2 \<le> d \<and> d < isqrt n + 1 \<and> d * d \<le> m \<longrightarrow> \<not> d dvd m)"
  have small: "d < isqrt n + 1" if "d * d \<le> m" for d
  proof (rule ccontr)
    assume "\<not> d < isqrt n + 1"
    then have "isqrt n + 1 \<le> d" by simp
    then have "(isqrt n + 1) * (isqrt n + 1) \<le> d * d" by (intro mult_le_mono)
    then show False using isqrt_bounds[of n] that m by linarith
  qed
  have "\<not> e dvd m" if e: "e \<in> {2..<m}" for e
  proof
    assume "e dvd m"
    then obtain f where f: "m = e * f" by (auto simp: dvd_def)
    have "2 \<le> f"
    proof (rule ccontr)
      assume "\<not> 2 \<le> f"
      then have "f = 0 \<or> f = 1" by auto
      then show False using f e by auto
    qed
    define d where "d = min e f"
    have "d * d \<le> e * f" unfolding d_def by (intro mult_le_mono) simp_all
    then have dd: "d * d \<le> m" by (simp add: f)
    have "d dvd m" unfolding d_def min_def f by simp
    moreover have "2 \<le> d" using e \<open>2 \<le> f\<close> by (simp add: d_def)
    ultimately show False using h small[OF dd] dd by blast
  qed
  then show "trial_prime m" using h by (simp add: trial_prime_def)
qed

lemma sieve_primes_eq:
  assumes n: "1 \<le> n"
  shows "sieve_primes n = Inr (map int (filter trial_prime [2..<nat n + 1]))"
proof -
  define N where "N = nat n"
  have N: "1 \<le> N" "nat (n + 1) = N + 1" using n by (simp_all add: N_def)
  define r where "r = replicate (N + 1) True"
  have r: "length r = N + 1" "\<And>m. m \<le> N \<Longrightarrow> r ! m"
    unfolding r_def by (simp_all only: length_replicate nth_replicate less_Suc_eq_le[symmetric] Suc_eq_plus1[symmetric])
  define a1 where "a1 = r[0 := False, 1 := False]"
  have len: "length a1 = N + 1" by (simp add: a1_def r(1))
  have init: "\<forall>m\<le>N. a1 ! m \<longleftrightarrow> 2 \<le> m"
  proof (intro allI impI)
    fix m assume m: "m \<le> N"
    have "a1 ! m = (if 1 = m then False else if 0 = m then False else r ! m)"
      using m by (simp add: a1_def nth_list_update r(1))
    then show "a1 ! m \<longleftrightarrow> 2 \<le> m" using r(2)[OF m] by auto
  qed
  have "isqrt N + 1 \<le> N + 1"
  proof -
    have "isqrt N \<le> isqrt N * isqrt N" by (cases "isqrt N") simp_all
    then show ?thesis using isqrt_bounds[of N] by linarith
  qed
  then have inv: "\<forall>m\<le>N. sieve_loop N a1 ! m \<longleftrightarrow> trial_prime m"
    using sieve_fold_invariant[OF len init, of "isqrt N + 1"] trial_prime_sqrt_test[of _ N]
    unfolding sieve_loop_def by blast
  have "filter (\<lambda>i. sieve_loop N a1 ! i) [2..<N + 1] = filter trial_prime [2..<N + 1]"
  proof (rule filter_cong)
    fix x assume "x \<in> set [2..<N + 1]"
    then have "x \<le> N" by auto
    then show "sieve_loop N a1 ! x = trial_prime x" using inv by blast
  qed simp
  moreover have "sieve_primes n = Inr (map int (filter (\<lambda>i. sieve_loop N a1 ! i) [2..<N + 1]))"
    using N(1) unfolding sieve_primes_def N(2) N_def[symmetric] r_def[symmetric]
    using r(1) by (auto simp: list_assign_def a1_def Let_def)
  ultimately show ?thesis by (simp add: N_def)
qed

section \<open>The congruence modulo 47\<close>

lemma verify_mod47_loop_True: "verify_mod47_loop ns"
  by (induction ns) (simp_all add: q_residue_47)

text \<open>
  C2. For every integer \<open>n\<close> in \<open>[0, 100000]\<close> the residue
  \<open>(pow(n, 47, 47) - pow((n - 1) % 47, 47, 47)) % 47\<close> is 1, which is also the value of
  \<open>(n ^ 47 - (n - 1) ^ 47) mod 47\<close>; hence \<open>verify_mod47(100000)\<close> returns True.
\<close>

theorem verify_mod47_100000:
  "(\<forall>n\<in>{0..100000}. q_residue n 47 = 1 \<and> (n ^ 47 - (n - 1) ^ 47) mod 47 = 1)
   \<and> verify_mod47 100000 = True"
  using q_residue_47 by (simp add: verify_mod47_def verify_mod47_loop_True q_residue_eq[symmetric])

theorem verify_mod47_100000_witness:
  "(5::int) \<in> {0..100000} \<and> q_residue 5 47 = 1 \<and> ((5::int) ^ 47 - (5 - 1) ^ 47) mod 47 = 1"
proof -
  have h: "(5::int) \<in> {0..100000}" by simp
  from verify_mod47_100000 have "\<forall>n\<in>{0..100000}. q_residue n 47 = 1 \<and> (n ^ 47 - (n - 1) ^ 47) mod 47 = 1"
    by (rule conjunct1)
  from this h have "q_residue 5 47 = 1 \<and> ((5::int) ^ 47 - (5 - 1) ^ 47) mod 47 = 1" by (rule bspec)
  with h show ?thesis by (rule conjI)
qed

section \<open>Agreement of the two classifiers on the sieved primes\<close>

lemma int_pred_mod47: "1 \<le> p \<Longrightarrow> (int p - 1) mod 47 = 0 \<longleftrightarrow> 47 dvd (p - 1)"
proof -
  assume p: "1 \<le> p"
  have "47 dvd (p - 1) \<longleftrightarrow> int 47 dvd int (p - 1)" by (simp only: int_dvd_int_iff)
  also have "\<dots> \<longleftrightarrow> (int p - 1) mod 47 = 0" using p by (simp add: dvd_eq_mod_eq_0)
  finally show ?thesis by simp
qed

lemma no_split_prime_below_283:
  assumes p: "trial_prime p" and b: "p < 283"
  shows "\<not> 47 dvd (p - 1)"
proof
  assume "47 dvd (p - 1)"
  then obtain k where k: "p - 1 = 47 * k" by (auto simp: dvd_def)
  have p2: "2 \<le> p" using p by (simp add: trial_prime_def)
  have "k \<le> 5" using k b by simp
  moreover have "k \<noteq> 0" using k p2 by auto
  ultimately have "k = 1 \<or> k = 2 \<or> k = 3 \<or> k = 4 \<or> k = 5" by auto
  then have "p = 48 \<or> p = 95 \<or> p = 142 \<or> p = 189 \<or> p = 236" using k p2 by auto
  moreover have "(2::nat) dvd 48" "(5::nat) dvd 95" "(2::nat) dvd 142" "(3::nat) dvd 189" "(2::nat) dvd 236"
    by simp_all
  ultimately show False using trial_prime_dvd[OF p, of 2] trial_prime_dvd[OF p, of 3] trial_prime_dvd[OF p, of 5]
    by auto
qed

lemma trial_prime_283: "trial_prime 283"
  by code_simp

lemma set_sieve_primes:
  assumes "1 \<le> n" and "sieve_primes n = Inr ps"
  shows "set ps = int ` {p. trial_prime p \<and> int p \<le> n}"
proof -
  have "ps = map int (filter trial_prime [2..<nat n + 1])"
    using assms sieve_primes_eq by simp
  moreover have "{p \<in> set [2..<nat n + 1]. trial_prime p} = {p. trial_prime p \<and> int p \<le> n}"
    using assms(1) by (auto simp: trial_prime_def)
  ultimately show ?thesis by simp
qed

lemma all_ok_loop:
  "foldl (\<lambda>all_ok p. let brute = omega_brute_force p; theory = omega_theory p
                      in if brute \<noteq> theory then False else all_ok) b ps
     \<longleftrightarrow> b \<and> (\<forall>p\<in>set ps. omega_brute_force p = omega_theory p)"
  by (induction ps arbitrary: b) (auto simp: Let_def)

lemma verify_omega_True:
  assumes n: "1 \<le> n"
  shows "verify_omega n = Inr True"
proof -
  define ps where "ps = map int (filter trial_prime [2..<nat n + 1])"
  have s: "sieve_primes n = Inr ps" using n by (simp add: ps_def sieve_primes_eq)
  have "\<forall>p\<in>set ps. omega_brute_force p = omega_theory p"
    by (auto simp: ps_def omega_agree)
  then show ?thesis unfolding verify_omega_def s by (simp only: sum.case all_ok_loop) simp
qed

lemma verify_omega_summary:
  assumes n: "1 \<le> n"
  shows "\<exists>primes. sieve_primes n = Inr primes
     \<and> set primes = int ` {p. trial_prime p \<and> int p \<le> n}
     \<and> (\<forall>p\<in>set primes. omega_theory p = omega_brute_force p)
     \<and> verify_omega n = Inr True"
proof -
  define primes where "primes = map int (filter trial_prime [2..<nat n + 1])"
  have s: "sieve_primes n = Inr primes" using n by (simp add: primes_def sieve_primes_eq)
  have "set primes = int ` {p. trial_prime p \<and> int p \<le> n}"
    using n s by (rule set_sieve_primes)
  moreover have "\<forall>p\<in>set primes. omega_theory p = omega_brute_force p"
    by (auto simp: primes_def omega_agree)
  moreover have "verify_omega n = Inr True" using n by (rule verify_omega_True)
  ultimately show ?thesis using s by blast
qed

text \<open>
  C1. Every prime \<open>p \<le> 6299\<close>, that is every element of \<open>sieve_primes(6299)\<close>, has
  \<open>omega_theory(p) = omega_brute_force(p)\<close>, and \<open>verify_omega(6299)\<close> returns True.
\<close>

theorem verify_omega_6299:
  "\<exists>primes. sieve_primes 6299 = Inr primes
     \<and> set primes = int ` {p. trial_prime p \<and> p \<le> 6299}
     \<and> (\<forall>p\<in>set primes. omega_theory p = omega_brute_force p)
     \<and> verify_omega 6299 = Inr True"
  using verify_omega_summary[of 6299] by simp

theorem verify_omega_6299_witness:
  "trial_prime 283 \<and> omega_theory 283 = 46 \<and> omega_brute_force 283 = 46
   \<and> trial_prime 2 \<and> omega_theory 2 = 0 \<and> omega_brute_force 2 = 0"
proof -
  obtain primes where s: "set primes = int ` {p. trial_prime p \<and> p \<le> 6299}"
    and a: "\<forall>p\<in>set primes. omega_theory p = omega_brute_force p"
    using verify_omega_6299 by blast
  have p283: "trial_prime 283" by (rule trial_prime_283)
  have p2: "trial_prime 2" by code_simp
  have "int 283 \<in> set primes" unfolding s using p283 by (intro imageI) simp
  then have "omega_theory 283 = omega_brute_force 283" using a by auto
  moreover have "int 2 \<in> set primes" unfolding s using p2 by (intro imageI) simp
  then have "omega_theory 2 = omega_brute_force 2" using a by auto
  moreover have "omega_theory 283 = 46" "omega_theory 2 = 0" by (simp_all add: omega_theory_def)
  ultimately show ?thesis using p283 p2 by simp
qed

section \<open>Small divisors and the least split prime\<close>

lemma no_divisor_among_iff: "no_divisor_among n ps \<longleftrightarrow> (\<forall>p\<in>set ps. q_residue n p \<noteq> 0)"
  by (induction ps) (simp_all add: Let_def)

lemma no_small_divisors_loop_iff:
  "no_small_divisors_loop ns sp \<longleftrightarrow> (\<forall>n\<in>set ns. no_divisor_among n sp)"
  by (induction ns) simp_all

lemma small_primes_inert:
  assumes s: "sieve_primes 282 = Inr small_primes" and p: "p \<in> set small_primes"
  shows "q_residue n p \<noteq> 0"
proof -
  have "set small_primes = int ` {p. trial_prime p \<and> int p \<le> 282}"
    using _ s by (rule set_sieve_primes) simp
  then obtain q where q: "p = int q" "trial_prime q" "q < 283" using p by auto
  have "\<not> 47 dvd (q - 1)" using q(2,3) by (rule no_split_prime_below_283)
  then show ?thesis unfolding q(1) by (rule q_residue_inert[OF q(2)])
qed

lemma sieve_primes_Inr: "1 \<le> n \<Longrightarrow> \<exists>ps. sieve_primes n = Inr ps"
  by (simp add: sieve_primes_eq)

text \<open>
  C3. For every integer \<open>n\<close> in \<open>[2, 10000]\<close> and every prime \<open>p < 283\<close>, that is every
  element of \<open>sieve_primes(282)\<close>, the residue of \<open>n ^ 47 - (n - 1) ^ 47\<close> modulo \<open>p\<close>, as the
  check computes it, is not 0; hence \<open>verify_no_small_divisors(10000)\<close> returns True.
\<close>

theorem verify_no_small_divisors_10000:
  "\<exists>small_primes. sieve_primes 282 = Inr small_primes
     \<and> set small_primes = int ` {p. trial_prime p \<and> p < 283}
     \<and> (\<forall>n\<in>{2..10000}. \<forall>p\<in>set small_primes.
           q_residue n p \<noteq> 0 \<and> (n ^ 47 - (n - 1) ^ 47) mod p \<noteq> 0)
     \<and> verify_no_small_divisors 10000 = Inr True"
proof -
  obtain small_primes where s: "sieve_primes 282 = Inr small_primes"
    using sieve_primes_Inr[of 282] by auto
  have "set small_primes = int ` {p. trial_prime p \<and> int p \<le> 282}"
    using _ s by (rule set_sieve_primes) simp
  moreover have "{p. trial_prime p \<and> int p \<le> 282} = {p. trial_prime p \<and> p < 283}" by auto
  ultimately have a: "set small_primes = int ` {p. trial_prime p \<and> p < 283}" by simp
  have b: "q_residue n p \<noteq> 0" if "p \<in> set small_primes" for n p
    using s that by (rule small_primes_inert)
  then have c: "\<forall>n\<in>{2..10000}. \<forall>p\<in>set small_primes.
      q_residue n p \<noteq> 0 \<and> (n ^ 47 - (n - 1) ^ 47) mod p \<noteq> 0"
    by (simp add: q_residue_eq[symmetric])
  have "no_small_divisors_loop ns small_primes" for ns
    using b by (simp add: no_small_divisors_loop_iff no_divisor_among_iff)
  then have "verify_no_small_divisors 10000 = Inr True"
    unfolding verify_no_small_divisors_def s by simp
  then show ?thesis using s a c by blast
qed

theorem verify_no_small_divisors_10000_witness:
  "(2::int) \<in> {2..10000} \<and> trial_prime 281 \<and> q_residue 2 281 \<noteq> 0
   \<and> ((2::int) ^ 47 - (2 - 1) ^ 47) mod 281 \<noteq> 0"
proof -
  obtain small_primes where s: "set small_primes = int ` {p. trial_prime p \<and> p < 283}"
    and a: "\<forall>n\<in>{2..10000}. \<forall>p\<in>set small_primes.
           q_residue n p \<noteq> 0 \<and> (n ^ 47 - (n - 1) ^ 47) mod p \<noteq> 0"
    using verify_no_small_divisors_10000 by blast
  have p: "trial_prime 281" by code_simp
  have n: "(2::int) \<in> {2..10000}" by simp
  have m: "int 281 \<in> set small_primes" unfolding s using p by (intro imageI) simp
  from a n have "\<forall>p\<in>set small_primes.
      q_residue 2 p \<noteq> 0 \<and> ((2::int) ^ 47 - (2 - 1) ^ 47) mod p \<noteq> 0" by (rule bspec)
  from this m have "q_residue 2 (int 281) \<noteq> 0 \<and> ((2::int) ^ 47 - (2 - 1) ^ 47) mod int 281 \<noteq> 0"
    by (rule bspec)
  then show ?thesis using p n by simp
qed

lemma first_bad_append:
  assumes "\<forall>x\<in>set xs. (x - 1) mod 47 \<noteq> 0"
  shows "first_bad_prime_is_283 (xs @ ys) = first_bad_prime_is_283 ys"
  using assms by (induction xs) simp_all

lemma find_append_none:
  assumes "\<forall>x\<in>set xs. \<not> P x"
  shows "find P (xs @ ys) = find P ys"
  using assms by (induction xs) simp_all

lemma sieve_primes_split:
  assumes n: "1 \<le> n" and q: "trial_prime q" and qn: "int q \<le> n"
  shows "\<exists>xs ys. sieve_primes n = Inr (xs @ int q # ys)
           \<and> (\<forall>x\<in>set xs. \<exists>r. x = int r \<and> trial_prime r \<and> r < q)"
proof -
  define N where "N = nat n + 1"
  define xs where "xs = map int (filter trial_prime [2..<q])"
  define ys where "ys = map int (filter trial_prime [Suc q..<N])"
  have q2: "2 \<le> q" using q by (simp add: trial_prime_def)
  have qN: "q < N" using qn by (simp add: N_def)
  have "[2..<N] = [2..<q] @ [q..<N]"
    using upt_add_eq_append[of 2 q "N - q"] q2 qN by simp
  moreover have "[q..<N] = q # [Suc q..<N]" using qN by (rule upt_conv_Cons)
  ultimately have "filter trial_prime [2..<N] = filter trial_prime [2..<q] @ q # filter trial_prime [Suc q..<N]"
    using q by simp
  then have "sieve_primes n = Inr (xs @ int q # ys)"
    using sieve_primes_eq[OF n] by (simp add: xs_def ys_def N_def)
  moreover have "\<forall>x\<in>set xs. \<exists>r. x = int r \<and> trial_prime r \<and> r < q"
    by (auto simp: xs_def)
  ultimately show ?thesis by blast
qed

lemma sieve_primes_300:
  "\<exists>xs ys. sieve_primes 300 = Inr (xs @ 283 # ys) \<and> (\<forall>x\<in>set xs. (x - 1) mod 47 \<noteq> 0)"
proof -
  obtain xs ys where s: "sieve_primes 300 = Inr (xs @ int 283 # ys)"
    and xs: "\<forall>x\<in>set xs. \<exists>r. x = int r \<and> trial_prime r \<and> r < 283"
    using sieve_primes_split[of 300 283] trial_prime_283 by auto
  have "\<forall>x\<in>set xs. (x - 1) mod 47 \<noteq> 0"
  proof
    fix x assume "x \<in> set xs"
    then obtain r where r: "x = int r" "trial_prime r" "r < 283" using xs by blast
    have "1 \<le> r" using r(2) by (simp add: trial_prime_def)
    then show "(x - 1) mod 47 \<noteq> 0"
      unfolding r(1) using no_split_prime_below_283[OF r(2,3)] by (simp add: int_pred_mod47)
  qed
  then show ?thesis using s by auto
qed

text \<open>
  C4. In \<open>sieve_primes(300)\<close>, the ascending list of primes the check scans, the first prime
  \<open>p\<close> with \<open>(p - 1) mod 47 = 0\<close> is 283, a prime; \<open>verify_smallest_bad_prime()\<close> returns True.
\<close>

theorem verify_smallest_bad_prime_True:
  "\<exists>primes. sieve_primes 300 = Inr primes
     \<and> set primes = int ` {p. trial_prime p \<and> p \<le> 300}
     \<and> find (\<lambda>p. (p - 1) mod 47 = 0) primes = Some 283
     \<and> verify_smallest_bad_prime = Inr True"
proof -
  obtain xs ys where s: "sieve_primes 300 = Inr (xs @ 283 # ys)"
    and xs: "\<forall>x\<in>set xs. (x - 1) mod 47 \<noteq> 0"
    using sieve_primes_300 by blast
  have "set (xs @ 283 # ys) = int ` {p. trial_prime p \<and> int p \<le> 300}"
    using _ s by (rule set_sieve_primes) simp
  then have "set (xs @ 283 # ys) = int ` {p. trial_prime p \<and> p \<le> 300}" by simp
  moreover have "find (\<lambda>p. (p - 1) mod 47 = 0) (xs @ 283 # ys) = Some 283"
    using xs by (simp add: find_append_none)
  moreover have "first_bad_prime_is_283 (xs @ 283 # ys)"
    using xs by (simp add: first_bad_append)
  then have "verify_smallest_bad_prime = Inr True"
    unfolding verify_smallest_bad_prime_def s by simp
  ultimately show ?thesis using s by blast
qed

lemma find_Some_mem: "find P xs = Some x \<Longrightarrow> x \<in> set xs"
  by (induction xs) (simp_all split: if_splits)

theorem verify_smallest_bad_prime_True_witness:
  "trial_prime 283 \<and> ((283::int) - 1) mod 47 = 0 \<and> (283::nat) \<le> 300"
proof -
  obtain primes where s: "set primes = int ` {p. trial_prime p \<and> p \<le> 300}"
    and f: "find (\<lambda>p. (p - 1) mod 47 = 0) primes = Some 283"
    using verify_smallest_bad_prime_True by blast
  have "283 \<in> set primes" using f by (rule find_Some_mem)
  then have "283 \<in> int ` {p. trial_prime p \<and> p \<le> 300}" by (simp only: s)
  then obtain q where q: "283 = int q" "q \<in> {p. trial_prime p \<and> p \<le> 300}" by (rule imageE)
  have "int q = int 283" using q(1) by simp
  then have "q = 283" by (simp only: of_nat_eq_iff)
  then have "trial_prime 283" using q(2) by simp
  then show ?thesis by simp
qed

section \<open>The Euler product is a left fold over the primes\<close>

lemma CQ_loop_fold:
  assumes "\<forall>p\<in>set ps. 2 \<le> p"
  shows "\<exists>a b. CQ_loop ps (c, s, t) = Inr (foldl (\<lambda>acc p. FMul acc (euler_factor p)) c ps, a, b)"
  using assms
proof (induction ps arbitrary: c s t)
  case Nil
  show ?case by simp
next
  case (Cons p ps)
  have p: "2 \<le> p" and rest: "\<forall>p\<in>set ps. 2 \<le> p" using Cons.prems by simp_all
  have f: "local_factor w p = Inr (FDiv (IntMinus 1 (TrueDiv w p)) (IntMinus 1 (TrueDiv 1 p)))" for w
    using p by (simp add: local_factor_def)
  show ?case
  proof (cases "omega_Q p = 0")
    case True
    then have "CQ_loop (p # ps) (c, s, t) = CQ_loop ps (FMul c (euler_factor p), s + 1, t)"
      by (simp add: f euler_factor_def Let_def)
    then show ?thesis using Cons.IH[OF rest, of "FMul c (euler_factor p)" "s + 1" t] by simp
  next
    case False
    then have "CQ_loop (p # ps) (c, s, t) = CQ_loop ps (FMul c (euler_factor p), s, t + 1)"
      by (simp add: f euler_factor_def Let_def)
    then show ?thesis using Cons.IH[OF rest, of "FMul c (euler_factor p)" s "t + 1"] by simp
  qed
qed

lemma upto_as_upt: "0 \<le> a \<Longrightarrow> [a..b] = map int [nat a..<nat (b + 1)]"
proof (induction "nat (b + 1 - a)" arbitrary: a)
  case 0
  then show ?case by (simp add: upto.simps)
next
  case (Suc k)
  then have ab: "a \<le> b" by simp
  have ih: "[a + 1..b] = map int [nat (a + 1)..<nat (b + 1)]"
    using Suc by (intro Suc.hyps(1)) simp_all
  have "[a..b] = a # [a + 1..b]" using ab by (simp add: upto.simps)
  moreover have "[nat a..<nat (b + 1)] = nat a # [Suc (nat a)..<nat (b + 1)]"
    using ab Suc.prems by (intro upt_conv_Cons) simp
  moreover have "Suc (nat a) = nat (a + 1)" using Suc.prems by simp
  ultimately show ?case using ih Suc.prems by simp
qed

lemma primes_ascending_eq:
  "1 \<le> n \<Longrightarrow> primes_ascending n = map int (filter trial_prime [2..<nat n + 1])"
proof -
  assume n: "1 \<le> n"
  have "[2..n] = map int [nat 2..<nat (n + 1)]" by (rule upto_as_upt) simp
  moreover have "nat (n + 1) = nat n + 1" using n by simp
  ultimately have "[2..n] = map int [2..<nat n + 1]" by simp
  then show ?thesis by (simp add: primes_ascending_def filter_map comp_def)
qed

lemma compute_CQ_eq:
  assumes n: "1 \<le> p_max"
  shows "compute_CQ p_max = Inr (CQ_left_fold p_max)"
proof -
  define ps where "ps = map int (filter trial_prime [2..<nat p_max + 1])"
  have s: "sieve_primes p_max = Inr ps" using n by (simp add: ps_def sieve_primes_eq)
  have pa: "primes_ascending p_max = ps" using n by (simp add: ps_def primes_ascending_eq)
  have "\<forall>p\<in>set ps. 2 \<le> p" by (auto simp: ps_def trial_prime_def)
  then obtain a b where
    "CQ_loop ps (Float_1_0, 0, 0) = Inr (foldl (\<lambda>acc p. FMul acc (euler_factor p)) Float_1_0 ps, a, b)"
    using CQ_loop_fold[of ps Float_1_0 0 0] by blast
  then show ?thesis unfolding compute_CQ_def s CQ_left_fold_def pa by simp
qed

section \<open>The sieve at its boundaries, and the claims on compute_CQ\<close>

lemma sorted_map_int_filter_upt: "sorted_wrt (<) (map int (filter P [a..<b]))"
proof -
  have "sorted_wrt (<) (filter P [a..<b])" by (rule sorted_wrt_filter) simp
  then show ?thesis by (simp add: sorted_wrt_map)
qed

lemma sieve_primes_correct:
  assumes n: "1 \<le> n"
  shows "\<exists>ps. sieve_primes n = Inr ps \<and> sorted_wrt (<) ps \<and> distinct ps
           \<and> set ps = int ` {p. trial_prime p \<and> int p \<le> n}"
proof -
  define ps where "ps = map int (filter trial_prime [2..<nat n + 1])"
  have s: "sieve_primes n = Inr ps" using n by (simp add: ps_def sieve_primes_eq)
  have "sorted_wrt (<) ps" unfolding ps_def by (rule sorted_map_int_filter_upt)
  moreover have "distinct ps" by (simp add: ps_def distinct_map)
  moreover have "set ps = int ` {p. trial_prime p \<and> int p \<le> n}" using n s by (rule set_sieve_primes)
  ultimately show ?thesis using s by blast
qed

lemma sieve_primes_nonpositive: "n \<le> 0 \<Longrightarrow> sieve_primes n = Inl IndexError"
proof -
  assume n: "n \<le> 0"
  have "length (replicate (nat (n + 1)) True) \<le> 1" using n by simp
  then show ?thesis
    by (cases "nat (n + 1)") (simp_all add: sieve_primes_def list_assign_def)
qed

text \<open>
  C5. At the boundary inputs: \<open>sieve_primes(1)\<close> returns the empty list and
  \<open>sieve_primes(2)\<close> returns \<open>[2]\<close>, but \<open>sieve_primes(0)\<close> does not return: the list has one
  entry and the assignment to \<open>is_prime[1]\<close> raises IndexError.
\<close>

theorem sieve_primes_boundaries:
  "sieve_primes 0 = Inl IndexError \<and> sieve_primes 1 = Inr [] \<and> sieve_primes 2 = Inr [2]"
proof (intro conjI)
  show "sieve_primes 0 = Inl IndexError" by code_simp
  show "sieve_primes 1 = Inr []" by code_simp
  show "sieve_primes 2 = Inr [2]" by code_simp
qed

text \<open>
  C7. For every \<open>n \<ge> 1\<close>, \<open>sieve_primes(n)\<close> returns a strictly ascending list without
  duplicates whose elements are exactly the primes in \<open>[2, n]\<close>, and
  \<open>sieve_primes(10) = [2, 3, 5, 7]\<close>; at \<open>n = 0\<close> it returns no list at all.
\<close>

theorem sieve_primes_ascending_primes:
  "(1 \<le> n \<longrightarrow> (\<exists>ps. sieve_primes n = Inr ps \<and> sorted_wrt (<) ps \<and> distinct ps
        \<and> set ps = int ` {p. trial_prime p \<and> int p \<le> n}))
   \<and> sieve_primes 10 = Inr [2, 3, 5, 7]
   \<and> sieve_primes 0 \<noteq> Inr qs"
proof -
  have a: "1 \<le> n \<longrightarrow> (\<exists>ps. sieve_primes n = Inr ps \<and> sorted_wrt (<) ps \<and> distinct ps
        \<and> set ps = int ` {p. trial_prime p \<and> int p \<le> n})"
    using sieve_primes_correct[of n] by blast
  have b: "sieve_primes 10 = Inr [2, 3, 5, 7]" by code_simp
  have "sieve_primes 0 = Inl IndexError" by (rule sieve_primes_nonpositive) simp
  then have c: "sieve_primes 0 \<noteq> Inr qs" by simp
  from a b c show ?thesis by (intro conjI)
qed

theorem sieve_primes_ascending_primes_witness:
  "(1::int) \<le> 10 \<and> sieve_primes 10 = Inr [2, 3, 5, 7] \<and> sorted_wrt (<) [2, 3, 5, 7 :: int]
   \<and> distinct [2, 3, 5, 7 :: int] \<and> set [2, 3, 5, 7] = int ` {p. trial_prime p \<and> int p \<le> 10}"
proof -
  have h: "(1::int) \<le> 10" by simp
  have e: "sieve_primes 10 = Inr [2, 3, 5, 7]"
    using sieve_primes_ascending_primes[of 10] by blast
  obtain ps where "sieve_primes 10 = Inr ps" "sorted_wrt (<) ps" "distinct ps"
    "set ps = int ` {p. trial_prime p \<and> int p \<le> 10}"
    using sieve_primes_ascending_primes[of 10] h by blast
  then show ?thesis using e h by simp
qed

text \<open>
  C8. For every \<open>p_max \<ge> 2\<close>, \<open>compute_CQ(p_max)\<close> returns the left fold, from \<open>1.0\<close>, of
  the multiplication by \<open>(1 - omega_Q(p) / p) / (1 - 1 / p)\<close> over the primes \<open>p \<le> p_max\<close> in
  ascending order, float operation for float operation.
\<close>

theorem compute_CQ_is_left_fold:
  assumes "2 \<le> p_max"
  shows "compute_CQ p_max = Inr (CQ_left_fold p_max)
    \<and> CQ_left_fold p_max
        = foldl (\<lambda>acc p. FMul acc (FDiv (IntMinus 1 (TrueDiv (omega_Q p) p)) (IntMinus 1 (TrueDiv 1 p))))
            Float_1_0 (primes_ascending p_max)
    \<and> sieve_primes p_max = Inr (primes_ascending p_max)
    \<and> sorted_wrt (<) (primes_ascending p_max)"
proof -
  have n: "1 \<le> p_max" using assms by simp
  have pa: "primes_ascending p_max = map int (filter trial_prime [2..<nat p_max + 1])"
    using n by (rule primes_ascending_eq)
  have "compute_CQ p_max = Inr (CQ_left_fold p_max)" using n by (rule compute_CQ_eq)
  moreover have "CQ_left_fold p_max
      = foldl (\<lambda>acc p. FMul acc (FDiv (IntMinus 1 (TrueDiv (omega_Q p) p)) (IntMinus 1 (TrueDiv 1 p))))
          Float_1_0 (primes_ascending p_max)"
    by (simp add: CQ_left_fold_def euler_factor_def)
  moreover have "sieve_primes p_max = Inr (primes_ascending p_max)"
    unfolding pa using n by (rule sieve_primes_eq)
  moreover have "sorted_wrt (<) (primes_ascending p_max)"
    unfolding pa by (rule sorted_map_int_filter_upt)
  ultimately show ?thesis by (intro conjI)
qed

theorem compute_CQ_is_left_fold_witness:
  "(2::int) \<le> 10 \<and> primes_ascending 10 = [2, 3, 5, 7] \<and>
   compute_CQ 10 = Inr (FMul (FMul (FMul (FMul Float_1_0 (euler_factor 2)) (euler_factor 3))
                                (euler_factor 5)) (euler_factor 7))"
proof -
  have h: "(2::int) \<le> 10" by simp
  have p: "primes_ascending 10 = [2, 3, 5, 7]" by code_simp
  then have "CQ_left_fold 10
      = FMul (FMul (FMul (FMul Float_1_0 (euler_factor 2)) (euler_factor 3)) (euler_factor 5)) (euler_factor 7)"
    by (simp add: CQ_left_fold_def)
  moreover have "compute_CQ 10 = Inr (CQ_left_fold 10)"
    using compute_CQ_is_left_fold[OF h] by (rule conjunct1)
  ultimately show ?thesis using h p by simp
qed




end
